theory Spec2Isabelle
  imports Main "HOL-Library.Multiset"
begin

section \<open>The event model\<close>

text \<open>
  The event broker of package \<open>events\<close>. A stream event is a Go struct of nullable
  pointer fields, one per variant; a field that is \<open>nil\<close> is \<open>None\<close> here, and a
  \<open>*XRPCStreamEvent\<close> that may itself be \<open>nil\<close> is an \<open>XRPCStreamEvent option\<close>.

  Sequence numbers are Go \<open>int64\<close>. The broker only copies and compares them (it never
  adds to one), so nothing can wrap around and they are modelled as \<open>int\<close>.
\<close>

record ErrorFrame =
  frame_Error :: string
  frame_Message :: string

text \<open>
  Modelled from the spec: the payload structs of package \<open>comatproto\<close>
  (\<open>SyncSubscribeRepos_Commit\<close>, \<open>_Handle\<close>, \<open>_Info\<close>, \<open>_Migrate\<close>, \<open>_Tombstone\<close>,
  \<open>LabelSubscribeLabels_Labels\<close>, \<open>_Info\<close>) are declared outside the files at hand.
  The spec gives every data-carrying variant a 64-bit \<open>Seq\<close>, which is the one field
  the broker reads; the info variants carry no sequence. Each payload is a record with
  that field (or a name, for the info frames); records are extensible, so the remaining
  fields of a payload do not matter.
\<close>

record SyncSubscribeRepos_Commit =
  commit_Seq :: int

record SyncSubscribeRepos_Handle =
  handle_Seq :: int

record SyncSubscribeRepos_Info =
  info_Name :: string

record SyncSubscribeRepos_Migrate =
  migrate_Seq :: int

record SyncSubscribeRepos_Tombstone =
  tombstone_Seq :: int

record LabelSubscribeLabels_Labels =
  labels_Seq :: int

record LabelSubscribeLabels_Info =
  labelinfo_Name :: string

record XRPCStreamEvent =
  Error :: "ErrorFrame option"
  RepoCommit :: "SyncSubscribeRepos_Commit option"
  RepoHandle :: "SyncSubscribeRepos_Handle option"
  RepoInfo :: "SyncSubscribeRepos_Info option"
  RepoMigrate :: "SyncSubscribeRepos_Migrate option"
  RepoTombstone :: "SyncSubscribeRepos_Tombstone option"
  LabelLabels :: "LabelSubscribeLabels_Labels option"
  LabelInfo :: "LabelSubscribeLabels_Info option"
  PrivUid :: nat
  PrivPdsId :: nat
  PrivRelevantPds :: "nat list"

type_synonym event = "XRPCStreamEvent option"

text \<open>The zero value \<open>XRPCStreamEvent{}\<close>: every pointer \<open>nil\<close>, every number 0.\<close>

definition zeroEvent :: XRPCStreamEvent where
  "zeroEvent = \<lparr> Error = None, RepoCommit = None, RepoHandle = None, RepoInfo = None,
     RepoMigrate = None, RepoTombstone = None, LabelLabels = None, LabelInfo = None,
     PrivUid = 0, PrivPdsId = 0, PrivRelevantPds = [] \<rparr>"

text \<open>\<open>sequenceForEvent\<close>: a \<open>switch\<close> whose first true case wins.\<close>

definition sequenceForEvent :: "event \<Rightarrow> int" where
  "sequenceForEvent evt =
     (case evt of
        None \<Rightarrow> - 1
      | Some e \<Rightarrow>
          (case RepoCommit e of Some c \<Rightarrow> commit_Seq c
           | None \<Rightarrow>
          (case RepoHandle e of Some h \<Rightarrow> handle_Seq h
           | None \<Rightarrow>
          (case RepoMigrate e of Some m \<Rightarrow> migrate_Seq m
           | None \<Rightarrow>
          (case RepoTombstone e of Some t \<Rightarrow> tombstone_Seq t
           | None \<Rightarrow>
          (case RepoInfo e of Some _ \<Rightarrow> - 1
           | None \<Rightarrow>
          (case Error e of Some _ \<Rightarrow> - 1
           | None \<Rightarrow> - 1)))))))"

text \<open>Events with exactly one populated variant, as a producer builds them.\<close>

definition commitEvent :: "int \<Rightarrow> event" where
  "commitEvent n = Some (zeroEvent\<lparr>RepoCommit := Some \<lparr>commit_Seq = n\<rparr>\<rparr>)"

definition handleEvent :: "int \<Rightarrow> event" where
  "handleEvent n = Some (zeroEvent\<lparr>RepoHandle := Some \<lparr>handle_Seq = n\<rparr>\<rparr>)"

definition migrateEvent :: "int \<Rightarrow> event" where
  "migrateEvent n = Some (zeroEvent\<lparr>RepoMigrate := Some \<lparr>migrate_Seq = n\<rparr>\<rparr>)"

definition tombstoneEvent :: "int \<Rightarrow> event" where
  "tombstoneEvent n = Some (zeroEvent\<lparr>RepoTombstone := Some \<lparr>tombstone_Seq = n\<rparr>\<rparr>)"

definition infoEvent :: "string \<Rightarrow> event" where
  "infoEvent s = Some (zeroEvent\<lparr>RepoInfo := Some \<lparr>info_Name = s\<rparr>\<rparr>)"

definition labelsEvent :: "int \<Rightarrow> event" where
  "labelsEvent n = Some (zeroEvent\<lparr>LabelLabels := Some \<lparr>labels_Seq = n\<rparr>\<rparr>)"

definition errorEvent :: "string \<Rightarrow> event" where
  "errorEvent code = Some (zeroEvent\<lparr>Error := Some \<lparr>frame_Error = code, frame_Message = []\<rparr>\<rparr>)"


section \<open>Channels, subscribers and the broker's memory\<close>

text \<open>
  Subscribers are shared through pointers (\<open>*Subscriber\<close>) and compared by pointer in
  \<open>rmSubscriber\<close>, so a subscriber is an address into an explicit store.
\<close>

type_synonym addr = nat

datatype panic = MakeChanSizeOutOfRange | CloseOfClosedChannel | SendOnClosedChannel
  | NilPointerDereference

datatype error = ErrPlaybackShutdown | ErrCaughtUp | ErrOther string

fun errorText :: "error \<Rightarrow> string" where
  "errorText ErrPlaybackShutdown = ''playback shutting down''"
| "errorText ErrCaughtUp = ''caught up''"
| "errorText (ErrOther msg) = msg"

text \<open>
  A buffered \<open>chan *XRPCStreamEvent\<close>: the events queued and not yet received, the
  capacity, and whether \<open>close\<close> was called. A send finds room when the queue is
  shorter than the capacity (a direct hand-over to a receiver that is already parked is
  not modelled). \<open>make\<close> panics on a negative size.
\<close>

record chan =
  ch_buf :: "event list"
  ch_cap :: nat
  ch_closed :: bool

definition make_chan :: "int \<Rightarrow> panic + chan" where
  "make_chan n =
     (if n < 0 then Inl MakeChanSizeOutOfRange
      else Inr \<lparr> ch_buf = [], ch_cap = nat n, ch_closed = False \<rparr>)"

definition has_room :: "chan \<Rightarrow> bool" where
  "has_room q = (length (ch_buf q) < ch_cap q)"

text \<open>
  \<open>Subscriber\<close>. The \<open>done\<close> channel is only ever closed, so it is the flag
  \<open>done_closed\<close>. \<open>cleanup\<close> is \<open>sync.OnceFunc\<close> of a closure; \<open>cleanup_once\<close> is the
  flag of that \<open>Once\<close>. The mutex \<open>lk\<close> has no value of its own in a sequential run:
  taking and releasing it are recorded in the trace below. The two Prometheus counters
  are \<open>WithLabelValues(ident)\<close> of two global vectors, so they live in the broker's
  memory, keyed by \<open>ident\<close>.
\<close>

record Subscriber =
  outgoing :: chan
  sub_filter :: "event \<Rightarrow> bool"
  done_closed :: bool
  cleanup_once :: bool
  cleanedUp :: bool
  ident :: string

text \<open>
  The operations a run performs on locks, counters, channels, the logger and the
  scheduler, in program order. Statements about what happens before what are
  statements about this trace.
\<close>

datatype level = LvlWarn | LvlError

datatype task = Evict addr | Join addr int

datatype counter = Enqueued | Broadcast

datatype op =
    OpLock addr
  | OpUnlock addr
  | OpInc counter string
  | OpSend addr event
  | OpDone addr
  | OpAfter nat
  | OpCloseDone addr
  | OpCloseOutgoing addr
  | OpLog level string
  | OpGo task

text \<open>
  \<open>EventManager\<close> (\<open>subs\<close>, \<open>bufferSize\<close>; the persister is passed to the functions that
  use it), together with the memory its pointers reach: the store of subscribers, the
  next free address, the two counter vectors and the trace.
\<close>

record world =
  subs :: "addr list"
  bufferSize :: int
  subscribers :: "addr \<Rightarrow> Subscriber option"
  next_addr :: addr
  eventsEnqueued :: "string \<Rightarrow> nat"
  eventsBroadcast :: "string \<Rightarrow> nat"
  trace :: "op list"

text \<open>\<open>NewEventManager\<close>: \<open>bufferSize: 32 << 10\<close>, no subscribers.\<close>

definition NewEventManager :: world where
  "NewEventManager = \<lparr> subs = [], bufferSize = 32 * 2 ^ 10, subscribers = (\<lambda>_. None),
     next_addr = 0, eventsEnqueued = (\<lambda>_. 0), eventsBroadcast = (\<lambda>_. 0), trace = [] \<rparr>"

definition emit :: "op list \<Rightarrow> world \<Rightarrow> world" where
  "emit ops w = w\<lparr>trace := trace w @ ops\<rparr>"

definition inc :: "counter \<Rightarrow> string \<Rightarrow> world \<Rightarrow> world" where
  "inc c i w =
     (case c of
        Enqueued \<Rightarrow> emit [OpInc Enqueued i] (w\<lparr>eventsEnqueued := (eventsEnqueued w)(i := Suc (eventsEnqueued w i))\<rparr>)
      | Broadcast \<Rightarrow> emit [OpInc Broadcast i] (w\<lparr>eventsBroadcast := (eventsBroadcast w)(i := Suc (eventsBroadcast w i))\<rparr>))"

subsection \<open>The subscriber list\<close>

definition addSubscriber :: "addr \<Rightarrow> world \<Rightarrow> world" where
  "addSubscriber a w = w\<lparr>subs := subs w @ [a]\<rparr>"

text \<open>The index at which \<open>for i, s := range em.subs\<close> first finds \<open>s == sub\<close>.\<close>

fun first_index :: "addr \<Rightarrow> addr list \<Rightarrow> nat option" where
  "first_index a [] = None"
| "first_index a (x # xs) =
     (if x = a then Some 0 else map_option Suc (first_index a xs))"

text \<open>
  \<open>rmSubscriber\<close>: at the first match, overwrite the slot with the last element, cut the
  last element off, and leave the loop.
\<close>

definition rmSubscriber :: "addr \<Rightarrow> world \<Rightarrow> world" where
  "rmSubscriber a w =
     (case first_index a (subs w) of
        None \<Rightarrow> w
      | Some i \<Rightarrow> w\<lparr>subs := butlast ((subs w)[i := last (subs w)])\<rparr>)"

subsection \<open>Cleanup\<close>

text \<open>
  The closure given to \<open>sync.OnceFunc\<close>: lock, \<open>close(done)\<close>, \<open>rmSubscriber\<close>,
  \<open>close(sub.outgoing)\<close>, \<open>cleanedUp = true\<close>, unlock (deferred). Closing a closed
  channel panics. A call after the first returns at once.
\<close>

definition cleanup :: "addr \<Rightarrow> world \<Rightarrow> panic + world" where
  "cleanup a w =
     (case subscribers w a of
        None \<Rightarrow> Inl NilPointerDereference
      | Some s \<Rightarrow>
          if cleanup_once s then Inr w
          else if done_closed s then Inl CloseOfClosedChannel
          else if ch_closed (outgoing s) then Inl CloseOfClosedChannel
          else
            (let w1 = emit [OpLock a, OpCloseDone a] w;
                 w2 = rmSubscriber a w1;
                 w3 = emit [OpCloseOutgoing a] w2;
                 s' = s\<lparr> cleanup_once := True, done_closed := True,
                        outgoing := (outgoing s)\<lparr>ch_closed := True\<rparr>, cleanedUp := True \<rparr>
             in Inr (emit [OpUnlock a] (w3\<lparr>subscribers := (subscribers w3)(a \<mapsto> s')\<rparr>))))"

text \<open>Calling the returned cancel function \<open>n\<close> times in a row.\<close>

fun cancelTimes :: "nat \<Rightarrow> addr \<Rightarrow> world \<Rightarrow> panic + world" where
  "cancelTimes 0 a w = Inr w"
| "cancelTimes (Suc n) a w =
     (case cleanup a w of Inl p \<Rightarrow> Inl p | Inr w' \<Rightarrow> cancelTimes n a w')"

section \<open>Broadcast and slow-consumer eviction\<close>


text \<open>
  The body of the loop of \<open>broadcastEvent\<close> for one subscriber. The \<open>select\<close> has a send
  case, a \<open>done\<close> case and a \<open>default\<close>. The send case is ready when the queue has room
  or is closed (a send on a closed channel panics), the \<open>done\<close> case when \<open>done\<close> is
  closed; when both are ready Go picks one at random, which \<open>pick\<close> decides here
  (\<open>pick a\<close>: the \<open>done\<close> case). The goroutine of the \<open>default\<close> case is recorded as
  started; \<open>evictSlowConsumer\<close> is its body.
\<close>

definition broadcastTo :: "(addr \<Rightarrow> bool) \<Rightarrow> event \<Rightarrow> addr \<Rightarrow> world \<Rightarrow> panic + world" where
  "broadcastTo pick evt a w =
     (case subscribers w a of
        None \<Rightarrow> Inl NilPointerDereference
      | Some s \<Rightarrow>
          if \<not> sub_filter s evt then Inr w
          else
            (let w1 = inc Enqueued (ident s) w;
                 q = outgoing s;
                 send_ready = (ch_closed q \<or> has_room q);
                 done_ready = done_closed s
             in if send_ready \<and> \<not> (done_ready \<and> pick a) then
                  (if ch_closed q then Inl SendOnClosedChannel
                   else Inr (inc Broadcast (ident s)
                          (emit [OpSend a evt]
                            (w1\<lparr>subscribers := (subscribers w1)
                                  (a \<mapsto> s\<lparr>outgoing := q\<lparr>ch_buf := ch_buf q @ [evt]\<rparr>\<rparr>)\<rparr>))))
                else if done_ready then
                  Inr (inc Broadcast (ident s) (emit [OpDone a] w1))
                else
                  Inr (inc Broadcast (ident s)
                         (emit [OpLog LvlWarn ''dropping slow consumer due to event overflow'',
                                OpGo (Evict a)] w1))))"

fun broadcastLoop :: "(addr \<Rightarrow> bool) \<Rightarrow> event \<Rightarrow> addr list \<Rightarrow> world \<Rightarrow> panic + world" where
  "broadcastLoop pick evt [] w = Inr w"
| "broadcastLoop pick evt (a # as) w =
     (case broadcastTo pick evt a w of
        Inl p \<Rightarrow> Inl p
      | Inr w' \<Rightarrow> broadcastLoop pick evt as w')"

definition broadcastEvent :: "(addr \<Rightarrow> bool) \<Rightarrow> event \<Rightarrow> world \<Rightarrow> panic + world" where
  "broadcastEvent pick evt w = broadcastLoop pick evt (subs w) w"


section \<open>Submitting an event\<close>

text \<open>
  \<open>EventPersistence\<close> is an interface with no implementation at hand, so \<open>Persist\<close> is a
  parameter: any function of the context, the event, the persister's state and the
  broker's memory (which it reaches through the broadcast callback) that returns an
  error or \<open>nil\<close>.
\<close>

definition persistAndSendEvent ::
  "('ctx \<Rightarrow> event \<Rightarrow> 'p \<Rightarrow> world \<Rightarrow> error option \<times> 'p \<times> world) \<Rightarrow> 'ctx \<Rightarrow> event \<Rightarrow> 'p \<Rightarrow> world
     \<Rightarrow> 'p \<times> world" where
  "persistAndSendEvent Persist ctx evt p w =
     (case Persist ctx evt p w of
        (None, p', w') \<Rightarrow> (p', w')
      | (Some err, p', w') \<Rightarrow>
          (p', emit [OpLog LvlError (''failed to persist outbound event: '' @ errorText err)] w'))"

definition AddEvent ::
  "('ctx \<Rightarrow> event \<Rightarrow> 'p \<Rightarrow> world \<Rightarrow> error option \<times> 'p \<times> world) \<Rightarrow> 'ctx \<Rightarrow> event \<Rightarrow> 'p \<Rightarrow> world
     \<Rightarrow> error option \<times> 'p \<times> world" where
  "AddEvent Persist ctx ev p w = (None, persistAndSendEvent Persist ctx ev p w)"


section \<open>Subscribing\<close>

text \<open>
  What \<open>Subscribe\<close> hands back: a receive channel (the subscriber's own queue, or the
  merged channel \<open>out\<close> of its join goroutine), the cancel function (the subscriber's
  \<open>cleanup\<close>), and an error. Each may be \<open>nil\<close> in Go, hence the options.
\<close>

datatype chan_ref = SubOutgoing addr | JoinOut addr

datatype cancelFn = Cleanup addr

fun callCancel :: "cancelFn \<Rightarrow> world \<Rightarrow> panic + world" where
  "callCancel (Cleanup a) w = cleanup a w"

text \<open>
  \<open>Subscribe\<close> up to the \<open>go\<close> statement. The context is only handed on to the
  persister, so it is not a parameter. The goroutine of a historical subscriber is
  recorded as started; \<open>joinRoutine\<close> below is its body.
\<close>

definition Subscribe ::
  "string \<Rightarrow> (event \<Rightarrow> bool) option \<Rightarrow> int option \<Rightarrow> world
     \<Rightarrow> panic + ((chan_ref option \<times> cancelFn option \<times> error option) \<times> world)" where
  "Subscribe idt flt since w =
     (let flt' = (case flt of None \<Rightarrow> (\<lambda>_. True) | Some f \<Rightarrow> f)
      in case make_chan (bufferSize w) of
           Inl p \<Rightarrow> Inl p
         | Inr q \<Rightarrow>
             (let a = next_addr w;
                  sub = \<lparr> outgoing = q, sub_filter = flt', done_closed = False,
                          cleanup_once = False, cleanedUp = False, ident = idt \<rparr>;
                  w1 = w\<lparr>subscribers := (subscribers w)(a \<mapsto> sub), next_addr := Suc a\<rparr>
              in case since of
                   None \<Rightarrow> Inr ((Some (SubOutgoing a), Some (Cleanup a), None), addSubscriber a w1)
                 | Some s0 \<Rightarrow>
                     (case make_chan (bufferSize w) of
                        Inl p \<Rightarrow> Inl p
                      | Inr out \<Rightarrow>
                          Inr ((Some (JoinOut a), Some (Cleanup a), None),
                               emit [OpGo (Join a s0)] w1))))"

section \<open>The join goroutine\<close>

text \<open>
  Modelled from the spec: \<open>EventPersistence.Playback\<close> is an interface method with no
  implementation at hand. The spec's contract: it invokes \<open>visit(evt)\<close> for every
  persisted event with \<open>seq > sinceSeq\<close> in sequence order, and stops when \<open>visit\<close>
  returns an error or when the log is exhausted. The log is the list of persisted events
  in the order the persister holds them; the visitor threads the goroutine's variables.
\<close>

fun Playback ::
  "event list \<Rightarrow> int \<Rightarrow> (event \<Rightarrow> 's \<Rightarrow> error option \<times> 's) \<Rightarrow> 's \<Rightarrow> error option \<times> 's" where
  "Playback [] since visit s = (None, s)"
| "Playback (e # es) since visit s =
     (if since < sequenceForEvent e then
        (case visit e s of
           (Some err, s') \<Rightarrow> (Some err, s')
         | (None, s') \<Rightarrow> Playback es since visit s')
      else Playback es since visit s)"

text \<open>
  The variables of the goroutine: everything sent on \<open>out\<close> so far (the consumer takes
  events off \<open>out\<close> as they come, so a send on \<open>out\<close> never waits for room), whether
  \<open>out\<close> was closed, and \<open>lastSeq\<close>.

  Every \<open>select\<close> of the goroutine has a \<open>done\<close> case next to its send on \<open>out\<close>.
  Whether \<open>done\<close> is closed by then, and which case Go picks when both are ready, is up
  to the canceller and the scheduler: \<open>stop n\<close> says that the select reached after \<open>n\<close>
  events were sent takes the \<open>done\<close> case.
\<close>

record joinState =
  out :: "event list"
  out_closed :: bool
  lastSeq :: int

text \<open>The visitor of the first \<open>Playback\<close> (cold replay).\<close>

definition coldVisit :: "(nat \<Rightarrow> bool) \<Rightarrow> event \<Rightarrow> joinState \<Rightarrow> error option \<times> joinState" where
  "coldVisit stop e js =
     (if stop (length (out js)) then (Some ErrPlaybackShutdown, js)
      else
        (let seq = sequenceForEvent e
         in (None, js\<lparr> out := out js @ [e],
                       lastSeq := (if 0 < seq then seq else lastSeq js) \<rparr>)))"

text \<open>The visitor of the second \<open>Playback\<close> (hot replay), closed over \<open>first\<close>.\<close>

definition hotVisit ::
  "(nat \<Rightarrow> bool) \<Rightarrow> event \<Rightarrow> event \<Rightarrow> joinState \<Rightarrow> error option \<times> joinState" where
  "hotVisit stop first e js =
     (let seq = sequenceForEvent e
      in if sequenceForEvent first < seq then (Some ErrCaughtUp, js)
         else if stop (length (out js)) then (Some ErrPlaybackShutdown, js)
         else (None, js\<lparr>out := out js @ [e]\<rparr>))"

text \<open>
  \<open>for evt := range sub.outgoing\<close> over the events that arrive on the queue: each is
  sent on \<open>out\<close> unless the \<open>done\<close> case is taken, which ends the goroutine. The flag
  returned says whether that happened.
\<close>

fun drain :: "(nat \<Rightarrow> bool) \<Rightarrow> event list \<Rightarrow> joinState \<Rightarrow> bool \<times> joinState" where
  "drain stop [] js = (False, js)"
| "drain stop (evt # evts) js =
     (if stop (length (out js)) then (True, js)
      else drain stop evts (js\<lparr>out := out js @ [evt]\<rparr>))"

text \<open>
  How the goroutine ends: it returns, or it is parked for good on a receive from
  \<open>sub.outgoing\<close> (nothing more arrives and the queue is never closed).
\<close>

datatype ending = Returned | Parked

text \<open>
  The goroutine started by \<open>Subscribe\<close> for a historical subscriber \<open>a\<close>. Its
  surroundings are parameters: \<open>playback1\<close> and \<open>playback3\<close> are the persister's
  \<open>Playback\<close> at the time of the first and of the second call, \<open>inbox\<close> is the sequence of
  events its receives on \<open>sub.outgoing\<close> yield, and \<open>inbox_closed\<close> says whether the queue
  is closed after them (a receive on a closed, empty queue yields \<open>nil\<close>).
\<close>

definition joinRoutine ::
  "(int \<Rightarrow> (event \<Rightarrow> joinState \<Rightarrow> error option \<times> joinState) \<Rightarrow> joinState \<Rightarrow> error option \<times> joinState)
   \<Rightarrow> (int \<Rightarrow> (event \<Rightarrow> joinState \<Rightarrow> error option \<times> joinState) \<Rightarrow> joinState \<Rightarrow> error option \<times> joinState)
   \<Rightarrow> (nat \<Rightarrow> bool) \<Rightarrow> int \<Rightarrow> event list \<Rightarrow> bool \<Rightarrow> addr \<Rightarrow> world
   \<Rightarrow> ending \<times> joinState \<times> world" where
  "joinRoutine playback1 playback3 stop since inbox inbox_closed a w =
     (let js0 = \<lparr> out = [], out_closed = False, lastSeq = since \<rparr>
      in case playback1 since (coldVisit stop) js0 of
           (Some err, js1) \<Rightarrow>
             (Returned, js1\<lparr>out_closed := True\<rparr>,
              emit [OpLog (if err = ErrPlaybackShutdown then LvlWarn else LvlError)
                      (''events playback: '' @ errorText err)] w)
         | (None, js1) \<Rightarrow>
             (let w1 = addSubscriber a w
              in if inbox = [] \<and> \<not> inbox_closed then (Parked, js1, w1)
                 else
                   (let first = (case inbox of [] \<Rightarrow> None | e # _ \<Rightarrow> e);
                        rest = tl inbox;
                        (err3, js3) = playback3 (lastSeq js1) (hotVisit stop first) js1
                    in if err3 \<noteq> None \<and> err3 \<noteq> Some ErrCaughtUp then
                         (Returned, js3\<lparr>out_closed := True\<rparr>,
                          rmSubscriber a
                            (emit [OpLog LvlError
                                     (''events playback: '' @ errorText (the err3))] w1))
                       else
                         (case drain stop rest js3 of
                            (True, js4) \<Rightarrow> (Returned, js4, rmSubscriber a w1)
                          | (False, js4) \<Rightarrow>
                              (if inbox_closed then Returned else Parked, js4, w1)))))"


section \<open>Example runs\<close>

text \<open>
  A broker with one live subscriber: \<open>Subscribe\<close> without a cursor on a new
  \<open>EventManager\<close>.
\<close>

definition liveWorld :: world where
  "liveWorld = (case Subscribe ''live'' None None NewEventManager of
                  Inr (_, w) \<Rightarrow> w | Inl _ \<Rightarrow> NewEventManager)"

text \<open>
  A broker whose only subscriber has a full queue: buffer size 1, one subscriber, one
  event broadcast and not yet taken off the queue.
\<close>

definition slowWorld :: world where
  "slowWorld =
     (case Subscribe ''slow'' None None (NewEventManager\<lparr>bufferSize := 1\<rparr>) of
        Inl _ \<Rightarrow> NewEventManager
      | Inr (_, w) \<Rightarrow>
          (case broadcastEvent (\<lambda>_. False) (commitEvent 1) w of
             Inl _ \<Rightarrow> NewEventManager | Inr w' \<Rightarrow> w'))"

text \<open>
  A broker right after \<open>Subscribe\<close> with a cursor: the subscriber exists, is not yet
  on the list, and its join goroutine has been started.
\<close>

definition histWorld :: "int \<Rightarrow> world" where
  "histWorld s0 = (case Subscribe ''hist'' None (Some s0) NewEventManager of
                    Inr (_, w) \<Rightarrow> w | Inl _ \<Rightarrow> NewEventManager)"





section \<open>Properties\<close>

lemma sequenceForEvent_simps [simp]:
  "sequenceForEvent None = - 1"
  "sequenceForEvent (commitEvent n) = n"
  "sequenceForEvent (handleEvent n) = n"
  "sequenceForEvent (migrateEvent n) = n"
  "sequenceForEvent (tombstoneEvent n) = n"
  "sequenceForEvent (infoEvent s) = - 1"
  "sequenceForEvent (labelsEvent n) = - 1"
  "sequenceForEvent (errorEvent c) = - 1"
  by (simp_all add: sequenceForEvent_def commitEvent_def handleEvent_def migrateEvent_def
      tombstoneEvent_def infoEvent_def labelsEvent_def errorEvent_def zeroEvent_def)

subsection \<open>The sequence accessor\<close>

theorem sequenceForEvent_labels_counterexample:
  "sequenceForEvent (labelsEvent 7) \<noteq> 7"
  by simp

text \<open>
  C8, as the code has it. \<open>sequenceForEvent\<close> returns the \<open>Seq\<close> of the first populated
  field among \<open>RepoCommit\<close>, \<open>RepoHandle\<close>, \<open>RepoMigrate\<close> and \<open>RepoTombstone\<close>, in that
  order. For every other event it returns \<open>-1\<close>: for \<open>nil\<close>, for the info and error
  frames, and also for the label variants \<open>LabelLabels\<close> and \<open>LabelInfo\<close>, which have no
  case of their own and fall to \<open>default\<close>.
\<close>

theorem sequenceForEvent_by_variant:
  "sequenceForEvent None = - 1 \<and>
   (RepoCommit e = Some c \<longrightarrow> sequenceForEvent (Some e) = commit_Seq c) \<and>
   (RepoCommit e = None \<and> RepoHandle e = Some h \<longrightarrow> sequenceForEvent (Some e) = handle_Seq h) \<and>
   (RepoCommit e = None \<and> RepoHandle e = None \<and> RepoMigrate e = Some m
      \<longrightarrow> sequenceForEvent (Some e) = migrate_Seq m) \<and>
   (RepoCommit e = None \<and> RepoHandle e = None \<and> RepoMigrate e = None \<and> RepoTombstone e = Some t
      \<longrightarrow> sequenceForEvent (Some e) = tombstone_Seq t) \<and>
   (RepoCommit e = None \<and> RepoHandle e = None \<and> RepoMigrate e = None \<and> RepoTombstone e = None
      \<longrightarrow> sequenceForEvent (Some e) = - 1)"
  by (simp add: sequenceForEvent_def split: option.splits)

theorem sequenceForEvent_by_variant_witness:
  "sequenceForEvent (Some (zeroEvent\<lparr>RepoTombstone := Some \<lparr>tombstone_Seq = 9\<rparr>\<rparr>)) = 9 \<and>
   sequenceForEvent (Some (zeroEvent\<lparr>LabelLabels := Some \<lparr>labels_Seq = 7\<rparr>\<rparr>)) = - 1"
proof
  have a: "sequenceForEvent (Some (zeroEvent\<lparr>RepoTombstone := Some \<lparr>tombstone_Seq = 9\<rparr>\<rparr>))
      = tombstone_Seq \<lparr>tombstone_Seq = 9\<rparr>"
    by (rule sequenceForEvent_by_variant [THEN conjunct2, THEN conjunct2, THEN conjunct2,
          THEN conjunct2, THEN conjunct1, THEN mp]) (simp add: zeroEvent_def)
  have b: "tombstone_Seq \<lparr>tombstone_Seq = 9\<rparr> = 9" by simp
  show "sequenceForEvent (Some (zeroEvent\<lparr>RepoTombstone := Some \<lparr>tombstone_Seq = 9\<rparr>\<rparr>)) = 9"
    by (rule trans [OF a b])
next
  show "sequenceForEvent (Some (zeroEvent\<lparr>LabelLabels := Some \<lparr>labels_Seq = 7\<rparr>\<rparr>)) = - 1"
    by (rule sequenceForEvent_by_variant [THEN conjunct2, THEN conjunct2, THEN conjunct2,
          THEN conjunct2, THEN conjunct2, THEN mp]) (simp add: zeroEvent_def)
qed

subsection \<open>Submitting\<close>

text \<open>
  C5. \<open>AddEvent\<close> returns \<open>nil\<close> for every context, event and persister, also when
  \<open>Persist\<close> returns an error: the failure is logged at error level and nothing else
  changes; when \<open>Persist\<close> succeeds nothing is logged.
\<close>

theorem AddEvent_returns_nil:
  "fst (AddEvent Persist ctx ev p w) = None \<and>
   (\<forall>err p' w'. Persist ctx ev p w = (Some err, p', w') \<longrightarrow>
      snd (AddEvent Persist ctx ev p w) =
        (p', emit [OpLog LvlError (''failed to persist outbound event: '' @ errorText err)] w')) \<and>
   (\<forall>p' w'. Persist ctx ev p w = (None, p', w') \<longrightarrow>
      snd (AddEvent Persist ctx ev p w) = (p', w'))"
  by (simp add: AddEvent_def persistAndSendEvent_def)

theorem AddEvent_returns_nil_witness:
  "fst (AddEvent (\<lambda>ctx ev p w. (Some (ErrOther ''disk full''), p, w)) () (commitEvent 1) () NewEventManager) = None \<and>
   snd (AddEvent (\<lambda>ctx ev p w. (Some (ErrOther ''disk full''), p, w)) () (commitEvent 1) () NewEventManager) =
     ((), emit [OpLog LvlError (''failed to persist outbound event: '' @ errorText (ErrOther ''disk full''))] NewEventManager)"
proof
  show "fst (AddEvent (\<lambda>ctx ev p w. (Some (ErrOther ''disk full''), p, w)) () (commitEvent 1) () NewEventManager) = None"
    by (rule AddEvent_returns_nil [THEN conjunct1])
next
  show "snd (AddEvent (\<lambda>ctx ev p w. (Some (ErrOther ''disk full''), p, w)) () (commitEvent 1) () NewEventManager) =
     ((), emit [OpLog LvlError (''failed to persist outbound event: '' @ errorText (ErrOther ''disk full''))] NewEventManager)"
    by (rule AddEvent_returns_nil [THEN conjunct2, THEN conjunct1, THEN spec, THEN spec, THEN spec, THEN mp]) simp
qed

subsection \<open>The subscriber list and cleanup\<close>

lemma first_index_None: "first_index a xs = None \<longleftrightarrow> a \<notin> set xs"
  by (induction xs) auto

lemma first_index_Some: "first_index a xs = Some i \<Longrightarrow> i < length xs \<and> xs ! i = a"
  by (induction xs arbitrary: i) (auto split: if_splits)

lemma swap_remove_absent:
  assumes "distinct xs" "i < length xs" "xs ! i = a"
  shows "a \<notin> set (butlast (xs[i := last xs]))"
proof
  assume "a \<in> set (butlast (xs[i := last xs]))"
  then obtain j where j: "j < length xs - 1" "butlast (xs[i := last xs]) ! j = a"
    by (auto simp: in_set_conv_nth)
  from j have nth: "(xs[i := last xs]) ! j = a"
    by (simp add: nth_butlast)
  have ne: "xs \<noteq> []" using assms by auto
  show False
  proof (cases "j = i")
    case True
    with nth assms have "last xs = xs ! i" by simp
    then have "xs ! (length xs - 1) = xs ! i" using ne by (simp add: last_conv_nth)
    moreover have "length xs - 1 < length xs" using ne by simp
    ultimately have "length xs - 1 = i"
      using assms nth_eq_iff_index_eq [of xs "length xs - 1" i] by simp
    with True j show False by simp
  next
    case False
    with nth have "xs ! j = xs ! i" using assms by simp
    moreover have "j < length xs" using j by simp
    ultimately have "j = i"
      using assms nth_eq_iff_index_eq [of xs j i] by simp
    with False show False by simp
  qed
qed

lemma rmSubscriber_absent: "distinct (subs w) \<Longrightarrow> a \<notin> set (subs (rmSubscriber a w))"
proof (cases "first_index a (subs w)")
  case None
  then have "a \<notin> set (subs w)" by (simp add: first_index_None)
  with None show ?thesis by (simp add: rmSubscriber_def)
next
  case (Some i)
  assume "distinct (subs w)"
  with Some first_index_Some [OF Some] show ?thesis
    by (simp add: rmSubscriber_def swap_remove_absent)
qed

lemma rmSubscriber_fields [simp]:
  "subscribers (rmSubscriber a w) = subscribers w"
  "trace (rmSubscriber a w) = trace w"
  "eventsEnqueued (rmSubscriber a w) = eventsEnqueued w"
  "eventsBroadcast (rmSubscriber a w) = eventsBroadcast w"
  "bufferSize (rmSubscriber a w) = bufferSize w"
  "next_addr (rmSubscriber a w) = next_addr w"
  by (simp_all add: rmSubscriber_def split: option.splits)

lemma emit_fields [simp]:
  "subscribers (emit ops w) = subscribers w"
  "trace (emit ops w) = trace w @ ops"
  "subs (emit ops w) = subs w"
  "eventsEnqueued (emit ops w) = eventsEnqueued w"
  "eventsBroadcast (emit ops w) = eventsBroadcast w"
  "bufferSize (emit ops w) = bufferSize w"
  "next_addr (emit ops w) = next_addr w"
  by (simp_all add: emit_def)

lemma rmSubscriber_emit: "rmSubscriber a (emit ops w) = emit ops (rmSubscriber a w)"
  by (simp add: rmSubscriber_def emit_def split: option.splits)

lemma inc_fields [simp]:
  "subscribers (inc c i w) = subscribers w"
  "subs (inc c i w) = subs w"
  "trace (inc c i w) = trace w @ [OpInc c i]"
  "bufferSize (inc c i w) = bufferSize w"
  "next_addr (inc c i w) = next_addr w"
  "eventsEnqueued (inc c i w) = (if c = Enqueued then (eventsEnqueued w)(i := Suc (eventsEnqueued w i)) else eventsEnqueued w)"
  "eventsBroadcast (inc c i w) = (if c = Broadcast then (eventsBroadcast w)(i := Suc (eventsBroadcast w i)) else eventsBroadcast w)"
  by (cases c; simp add: inc_def emit_def)+

lemma cleanup_again:
  "subscribers w a = Some s \<Longrightarrow> cleanup_once s \<Longrightarrow> cleanup a w = Inr w"
  by (simp add: cleanup_def)

lemma cancelTimes_again:
  "subscribers w a = Some s \<Longrightarrow> cleanup_once s \<Longrightarrow> cancelTimes n a w = Inr w"
  by (induction n) (simp_all add: cleanup_again)

lemma cleanup_first:
  assumes "subscribers w a = Some s" "\<not> cleanup_once s" "\<not> done_closed s"
    "\<not> ch_closed (outgoing s)"
  shows "\<exists>w1. cleanup a w = Inr w1 \<and>
     subscribers w1 = (subscribers w)(a \<mapsto> s\<lparr> cleanup_once := True, done_closed := True,
                        outgoing := (outgoing s)\<lparr>ch_closed := True\<rparr>, cleanedUp := True \<rparr>) \<and>
     subs w1 = subs (rmSubscriber a w) \<and>
     trace w1 = trace w @ [OpLock a, OpCloseDone a, OpCloseOutgoing a, OpUnlock a] \<and>
     eventsEnqueued w1 = eventsEnqueued w \<and> eventsBroadcast w1 = eventsBroadcast w"
  using assms by (simp add: cleanup_def Let_def rmSubscriber_emit)

lemma liveWorld_eq:
  "liveWorld = NewEventManager\<lparr> subs := [0], next_addr := 1,
      subscribers := (\<lambda>_. None)(0 \<mapsto> \<lparr> outgoing = \<lparr> ch_buf = [], ch_cap = 32768, ch_closed = False \<rparr>,
         sub_filter = (\<lambda>_. True), done_closed = False, cleanup_once = False, cleanedUp = False,
         ident = ''live'' \<rparr>) \<rparr>"
  by (simp add: liveWorld_def Subscribe_def make_chan_def NewEventManager_def Let_def addSubscriber_def)

text \<open>
  C7. The cancel function returned by \<open>Subscribe\<close> is the subscriber's \<open>cleanup\<close>. On a
  subscriber that was not cleaned up yet (its \<open>Once\<close> has not fired and its channels are
  open), in a broker whose list holds no subscriber twice, calling it \<open>n + 1\<close> times
  never panics and ends in the same state as calling it once: \<open>done\<close> and \<open>outgoing\<close>
  are closed, each by exactly one \<open>close\<close>, the subscriber is gone from the list, and
  \<open>cleanedUp\<close> is set.
\<close>

theorem cancel_idempotent:
  assumes "subscribers w a = Some s" "\<not> cleanup_once s" "\<not> done_closed s"
    "\<not> ch_closed (outgoing s)" "distinct (subs w)"
  shows "\<exists>w1 s1. cleanup a w = Inr w1 \<and> cancelTimes (Suc n) a w = Inr w1 \<and>
     subscribers w1 a = Some s1 \<and> done_closed s1 \<and> ch_closed (outgoing s1) \<and> cleanedUp s1 \<and>
     a \<notin> set (subs w1) \<and>
     count_list (trace w1) (OpCloseDone a) = Suc (count_list (trace w) (OpCloseDone a)) \<and>
     count_list (trace w1) (OpCloseOutgoing a) = Suc (count_list (trace w) (OpCloseOutgoing a))"
proof -
  from cleanup_first [OF assms(1-4)] obtain w1 where w1: "cleanup a w = Inr w1"
    "subscribers w1 = (subscribers w)(a \<mapsto> s\<lparr> cleanup_once := True, done_closed := True,
                        outgoing := (outgoing s)\<lparr>ch_closed := True\<rparr>, cleanedUp := True \<rparr>)"
    "subs w1 = subs (rmSubscriber a w)"
    "trace w1 = trace w @ [OpLock a, OpCloseDone a, OpCloseOutgoing a, OpUnlock a]"
    by blast
  let ?s1 = "s\<lparr> cleanup_once := True, done_closed := True,
                outgoing := (outgoing s)\<lparr>ch_closed := True\<rparr>, cleanedUp := True \<rparr>"
  have s1: "subscribers w1 a = Some ?s1" using w1(2) by simp
  have again: "cancelTimes n a w1 = Inr w1"
    by (rule cancelTimes_again [OF s1]) simp
  have "a \<notin> set (subs w1)" using w1(3) rmSubscriber_absent [OF assms(5)] by simp
  with w1 s1 again show ?thesis by simp
qed

theorem cancel_idempotent_witness:
  "distinct (subs liveWorld) \<and>
   (\<exists>w1 s1. cleanup 0 liveWorld = Inr w1 \<and> cancelTimes (Suc 2) 0 liveWorld = Inr w1 \<and>
     subscribers w1 0 = Some s1 \<and> done_closed s1 \<and> ch_closed (outgoing s1) \<and> cleanedUp s1 \<and>
     0 \<notin> set (subs w1) \<and>
     count_list (trace w1) (OpCloseDone 0) = Suc (count_list (trace liveWorld) (OpCloseDone 0)) \<and>
     count_list (trace w1) (OpCloseOutgoing 0) = Suc (count_list (trace liveWorld) (OpCloseOutgoing 0)))"
proof -
  let ?s = "\<lparr> outgoing = \<lparr> ch_buf = [], ch_cap = 32768, ch_closed = False \<rparr>,
         sub_filter = (\<lambda>_. True), done_closed = False, cleanup_once = False, cleanedUp = False,
         ident = ''live'' \<rparr>"
  have a: "subscribers liveWorld 0 = Some ?s" by (simp add: liveWorld_eq)
  have b: "\<not> cleanup_once ?s" "\<not> done_closed ?s" "\<not> ch_closed (outgoing ?s)" by simp_all
  have d: "distinct (subs liveWorld)" by (simp add: liveWorld_eq)
  show ?thesis
    by (rule conjI [OF d cancel_idempotent [OF a b d]])
qed

subsection \<open>Subscribe\<close>

text \<open>
  C10. On a broker whose buffer size is not negative (\<open>NewEventManager\<close> sets 32768; a
  negative size would make \<open>make\<close> panic), \<open>Subscribe\<close> returns a channel, a cancel
  function and a \<open>nil\<close> error, for every identity, filter and cursor. The channel is the
  subscriber's queue without a cursor and the merged channel with one; the cancel
  function is the new subscriber's \<open>cleanup\<close>; a \<open>nil\<close> filter has become the predicate
  that accepts everything.
\<close>

theorem Subscribe_never_fails:
  assumes "0 \<le> bufferSize w"
  shows "\<exists>ch w' s. Subscribe idt flt since w = Inr ((Some ch, Some (Cleanup (next_addr w)), None), w') \<and>
     ch = (case since of None \<Rightarrow> SubOutgoing (next_addr w) | Some _ \<Rightarrow> JoinOut (next_addr w)) \<and>
     subscribers w' (next_addr w) = Some s \<and> ident s = idt \<and>
     sub_filter s = (case flt of None \<Rightarrow> (\<lambda>_. True) | Some f \<Rightarrow> f)"
  using assms
  by (cases since) (simp_all add: Subscribe_def make_chan_def Let_def addSubscriber_def)

theorem Subscribe_never_fails_witness:
  "0 \<le> bufferSize NewEventManager \<and>
   (\<exists>ch w' s. Subscribe ''c'' None (Some 0) NewEventManager
        = Inr ((Some ch, Some (Cleanup (next_addr NewEventManager)), None), w') \<and>
     ch = (case Some (0::int) of None \<Rightarrow> SubOutgoing (next_addr NewEventManager)
           | Some _ \<Rightarrow> JoinOut (next_addr NewEventManager)) \<and>
     subscribers w' (next_addr NewEventManager) = Some s \<and> ident s = ''c'' \<and>
     sub_filter s = (case None of None \<Rightarrow> (\<lambda>_. True) | Some f \<Rightarrow> f))"
proof -
  have h: "0 \<le> bufferSize NewEventManager" by (simp add: NewEventManager_def)
  show ?thesis
    by (rule conjI [OF h Subscribe_never_fails [OF h]])
qed

subsection \<open>Broadcast\<close>

lemma slowWorld_eq:
  "slowWorld = NewEventManager\<lparr> subs := [0], bufferSize := 1, next_addr := 1,
      subscribers := (\<lambda>_. None)(0 \<mapsto> \<lparr> outgoing = \<lparr> ch_buf = [commitEvent 1], ch_cap = 1, ch_closed = False \<rparr>,
         sub_filter = (\<lambda>_. True), done_closed = False, cleanup_once = False, cleanedUp = False,
         ident = ''slow'' \<rparr>),
      eventsEnqueued := (\<lambda>_. 0)(''slow'' := 1), eventsBroadcast := (\<lambda>_. 0)(''slow'' := 1),
      trace := [OpInc Enqueued ''slow'', OpSend 0 (commitEvent 1), OpInc Broadcast ''slow''] \<rparr>"
  by (simp add: slowWorld_def Subscribe_def make_chan_def NewEventManager_def Let_def
      addSubscriber_def broadcastEvent_def broadcastTo_def has_room_def inc_def emit_def)

theorem broadcastCounter_counterexample:
  "eventsBroadcast slowWorld ''slow'' = 1 \<and>
   ch_buf (outgoing (the (subscribers slowWorld 0))) = [commitEvent 1] \<and>
   eventsBroadcast (projr (broadcastEvent (\<lambda>_. False) (commitEvent 2) slowWorld)) ''slow'' = 2 \<and>
   ch_buf (outgoing (the (subscribers
       (projr (broadcastEvent (\<lambda>_. False) (commitEvent 2) slowWorld)) 0))) = [commitEvent 1]"
  by (simp add: slowWorld_eq broadcastEvent_def broadcastTo_def has_room_def inc_def emit_def
      NewEventManager_def Let_def)

text \<open>
  C9, as the code has it. For a subscriber whose filter matches, \<open>enqueuedCounter\<close> is
  incremented before the \<open>select\<close>, and \<open>broadcastCounter\<close> is incremented once after the
  \<open>select\<close> in each of its three outcomes: the event was pushed, \<open>done\<close> was observed, or
  the queue was full. The event is on the queue in the first outcome only.
\<close>

theorem broadcast_counters:
  assumes "subscribers w a = Some s" "sub_filter s evt" "broadcastTo pick evt a w = Inr w'"
  shows "eventsEnqueued w' (ident s) = Suc (eventsEnqueued w (ident s)) \<and>
     eventsBroadcast w' (ident s) = Suc (eventsBroadcast w (ident s)) \<and>
     trace w' = trace w @ [OpInc Enqueued (ident s)] @
       (if has_room (outgoing s) \<and> \<not> (done_closed s \<and> pick a) then [OpSend a evt]
        else if done_closed s then [OpDone a]
        else [OpLog LvlWarn ''dropping slow consumer due to event overflow'', OpGo (Evict a)])
       @ [OpInc Broadcast (ident s)] \<and>
     (\<exists>s'. subscribers w' a = Some s' \<and>
        ch_buf (outgoing s') =
          (if has_room (outgoing s) \<and> \<not> (done_closed s \<and> pick a) then ch_buf (outgoing s) @ [evt]
           else ch_buf (outgoing s)))"
  using assms
  by (auto simp: broadcastTo_def Let_def split: if_splits)

theorem broadcast_counters_witness:
  "eventsEnqueued (projr (broadcastTo (\<lambda>_. False) (commitEvent 2) 0 slowWorld)) ''slow''
     = Suc (eventsEnqueued slowWorld ''slow'') \<and>
   eventsBroadcast (projr (broadcastTo (\<lambda>_. False) (commitEvent 2) 0 slowWorld)) ''slow''
     = Suc (eventsBroadcast slowWorld ''slow'') \<and>
   trace (projr (broadcastTo (\<lambda>_. False) (commitEvent 2) 0 slowWorld))
     = trace slowWorld @ [OpInc Enqueued ''slow''] @
       [OpLog LvlWarn ''dropping slow consumer due to event overflow'', OpGo (Evict 0)]
       @ [OpInc Broadcast ''slow'']"
proof -
  let ?s = "\<lparr> outgoing = \<lparr> ch_buf = [commitEvent 1], ch_cap = 1, ch_closed = False \<rparr>,
         sub_filter = (\<lambda>_. True), done_closed = False, cleanup_once = False, cleanedUp = False,
         ident = ''slow'' \<rparr>"
  have a: "subscribers slowWorld 0 = Some ?s" by (simp add: slowWorld_eq)
  have b: "sub_filter ?s (commitEvent 2)" by simp
  have c: "broadcastTo (\<lambda>_. False) (commitEvent 2) 0 slowWorld
      = Inr (projr (broadcastTo (\<lambda>_. False) (commitEvent 2) 0 slowWorld))"
    by (simp add: broadcastTo_def a has_room_def Let_def)
  from broadcast_counters [OF a b c] show ?thesis
    by (simp add: has_room_def)
qed

subsection \<open>Slow-consumer eviction\<close>



subsection \<open>The join goroutine when nothing cancels it\<close>

lemma cold_replay:
  assumes "\<forall>n. \<not> stop n"
  shows "Playback log since (coldVisit stop) js =
     (None, js\<lparr> out := out js @ filter (\<lambda>e. since < sequenceForEvent e) log,
        lastSeq := fold (\<lambda>e l. if 0 < sequenceForEvent e then sequenceForEvent e else l)
                     (filter (\<lambda>e. since < sequenceForEvent e) log) (lastSeq js) \<rparr>)"
  using assms by (induction log arbitrary: js) (simp_all add: coldVisit_def Let_def)

lemma hot_replay:
  assumes "\<forall>n. \<not> stop n"
  shows "Playback log l (hotVisit stop first) js =
     (if \<exists>e \<in> set log. l < sequenceForEvent e \<and> sequenceForEvent first < sequenceForEvent e
      then Some ErrCaughtUp else None,
      js\<lparr> out := out js @ takeWhile (\<lambda>e. sequenceForEvent e \<le> sequenceForEvent first)
                            (filter (\<lambda>e. l < sequenceForEvent e) log) \<rparr>)"
  using assms by (induction log arbitrary: js) (auto simp: hotVisit_def Let_def)

lemma drain_all:
  assumes "\<forall>n. \<not> stop n"
  shows "drain stop evts js = (False, js\<lparr>out := out js @ evts\<rparr>)"
  using assms by (induction evts arbitrary: js) simp_all

lemma join_out:
  assumes "\<forall>n. \<not> stop n"
  shows "out (fst (snd (joinRoutine (Playback log1) (Playback log3) stop since (first # rest) closed a w)))
     = filter (\<lambda>e. since < sequenceForEvent e) log1
       @ takeWhile (\<lambda>e. sequenceForEvent e \<le> sequenceForEvent first)
           (filter (\<lambda>e. fold (\<lambda>e l. if 0 < sequenceForEvent e then sequenceForEvent e else l)
                     (filter (\<lambda>e. since < sequenceForEvent e) log1) since < sequenceForEvent e) log3)
       @ rest"
  using assms
  by (simp add: joinRoutine_def Let_def cold_replay hot_replay drain_all)

lemma histWorld_eq:
  "histWorld s0 = NewEventManager\<lparr> next_addr := 1,
      subscribers := (\<lambda>_. None)(0 \<mapsto> \<lparr> outgoing = \<lparr> ch_buf = [], ch_cap = 32768, ch_closed = False \<rparr>,
         sub_filter = (\<lambda>_. True), done_closed = False, cleanup_once = False, cleanedUp = False,
         ident = ''hist'' \<rparr>),
      trace := [OpGo (Join 0 s0)] \<rparr>"
  by (simp add: histWorld_def Subscribe_def make_chan_def NewEventManager_def Let_def emit_def)


text \<open>
  Whatever the log holds: the hot replay ends with the caught-up sentinel, and forwards
  nothing, at the first event it visits whose sequence is above that of \<open>first\<close>. When
  \<open>first\<close> has no sequence this is the first event with a sequence of 0 or more.
\<close>

lemma hot_replay_stops_at_once:
  assumes "l < sequenceForEvent e" "sequenceForEvent first < sequenceForEvent e"
  shows "Playback (e # es) l (hotVisit stop first) js = (Some ErrCaughtUp, js)"
  using assms by (simp add: hotVisit_def Let_def)

text \<open>
  C2, at the failing input. The persister holds the events 1, 2 and 3, the cursor is 0,
  and the first event read from the live queue is an info frame, whose sequence is
  \<open>-1\<close>. The hot replay stops at the first event it visits with the caught-up
  sentinel and forwards nothing, so the goroutine delivers only what follows the info
  frame on the queue: the events 1 and 2 are lost.
\<close>

theorem hot_replay_nonsequenced_first:
  "Playback [commitEvent 1, commitEvent 2, commitEvent 3] 0
       (hotVisit (\<lambda>_. False) (infoEvent ''hello''))
       \<lparr> out = [], out_closed = False, lastSeq = 0 \<rparr>
     = (Some ErrCaughtUp, \<lparr> out = [], out_closed = False, lastSeq = 0 \<rparr>) \<and>
   out (fst (snd (joinRoutine (Playback []) (Playback [commitEvent 1, commitEvent 2, commitEvent 3])
       (\<lambda>_. False) 0 [infoEvent ''hello'', commitEvent 3] False 0 (histWorld 0))))
     = [commitEvent 3]"
  by (simp add: hotVisit_def joinRoutine_def Let_def)

text \<open>
  C3, at the failing input. The events 5 and 6 are in the log when the cold replay runs,
  and their broadcasts reach the subscriber after it was put on the list. The cold replay
  delivers 5 and 6, the first live event is 5, the hot replay from 6 finds nothing, and
  the drain delivers 6 a second time.
\<close>

theorem join_duplicate_at_seam:
  "map sequenceForEvent
     (out (fst (snd (joinRoutine (Playback [commitEvent 5, commitEvent 6])
        (Playback [commitEvent 5, commitEvent 6])
        (\<lambda>_. False) 4 [commitEvent 5, commitEvent 6] False 0 (histWorld 4)))))
     = [5, 6, 6]"
  by (simp add: hotVisit_def coldVisit_def joinRoutine_def Let_def)




lemma fold_lastSeq:
  assumes "\<forall>e \<in> set es. 0 < sequenceForEvent e"
  shows "fold (\<lambda>e l. if 0 < sequenceForEvent e then sequenceForEvent e else l) es l
     = (if es = [] then l else sequenceForEvent (last es))"
  using assms by (induction es arbitrary: l) auto

lemma le_last_of_increasing:
  assumes "sorted_wrt (\<lambda>x y. sequenceForEvent x < sequenceForEvent y) xs" "x \<in> set xs"
  shows "sequenceForEvent x \<le> sequenceForEvent (last xs)"
  using assms by (induction xs) (auto simp: less_imp_le)

lemma takeWhile_none: "\<forall>x \<in> set xs. \<not> P x \<Longrightarrow> takeWhile P xs = []"
  by (cases xs) auto

lemma takeWhile_all_then_none:
  "\<forall>x \<in> set xs. P x \<Longrightarrow> takeWhile P ys = [] \<Longrightarrow> takeWhile P (xs @ ys) = xs"
  by (simp add: takeWhile_append2)

lemma handoff_core:
  fixes since :: int
  assumes srt: "sorted_wrt (\<lambda>x y. sequenceForEvent x < sequenceForEvent y)
                  (before @ gap @ first # later)"
    and pos: "\<forall>e \<in> set before. 0 < sequenceForEvent e"
    and seen: "set seen \<subseteq> set later"
    and cur: "since \<le> sequenceForEvent first"
  defines "cold \<equiv> filter (\<lambda>e. since < sequenceForEvent e) before"
  defines "L \<equiv> fold (\<lambda>e l. if 0 < sequenceForEvent e then sequenceForEvent e else l) cold since"
  shows "cold @ takeWhile (\<lambda>e. sequenceForEvent e \<le> sequenceForEvent first)
                  (filter (\<lambda>e. L < sequenceForEvent e) (before @ gap @ first # seen)) @ later
         = filter (\<lambda>e. since < sequenceForEvent e) (before @ gap @ first # later)"
proof -
  let ?g = sequenceForEvent
  have sb: "sorted_wrt (\<lambda>x y. ?g x < ?g y) before"
    and bg: "\<forall>x \<in> set before. \<forall>y \<in> set (gap @ [first]). ?g x < ?g y"
    and gf: "\<forall>x \<in> set gap. ?g x < ?g first"
    and fl: "\<forall>y \<in> set later. ?g first < ?g y"
    using srt by (auto simp: sorted_wrt_append)
  have Ldef: "L = (if cold = [] then since else ?g (last cold))"
    unfolding L_def using pos by (intro fold_lastSeq) (simp add: cold_def)
  have scold: "sorted_wrt (\<lambda>x y. ?g x < ?g y) cold"
    unfolding cold_def using sb by (rule sorted_wrt_filter)
  have f_before: "filter (\<lambda>e. L < ?g e) before = []"
  proof (cases "cold = []")
    case True
    then show ?thesis using Ldef by (simp add: cold_def)
  next
    case False
    have "\<not> L < ?g x" if "x \<in> set before" for x
    proof
      assume lx: "L < ?g x"
      have "last cold \<in> set cold" using False by simp
      then have "since < ?g (last cold)" by (simp add: cold_def)
      with lx Ldef False have "since < ?g x" by simp
      with that have "x \<in> set cold" by (simp add: cold_def)
      from le_last_of_increasing [OF scold this] lx Ldef False show False by simp
    qed
    then show ?thesis by (simp add: filter_empty_conv)
  qed
  have f_gap: "filter (\<lambda>e. L < ?g e) (gap @ [first]) = filter (\<lambda>e. since < ?g e) (gap @ [first])"
  proof (cases "cold = []")
    case True
    then show ?thesis using Ldef by simp
  next
    case False
    then have lc: "last cold \<in> set cold" by simp
    then have a: "since < L" "last cold \<in> set before" using Ldef False by (simp_all add: cold_def)
    have "L < ?g y \<and> since < ?g y" if "y \<in> set (gap @ [first])" for y
    proof -
      from bg a(2) that have "?g (last cold) < ?g y" by blast
      with a(1) Ldef False show ?thesis by simp
    qed
    then show ?thesis by (intro filter_cong) auto
  qed
  have tw: "takeWhile (\<lambda>e. ?g e \<le> ?g first)
              (filter (\<lambda>e. L < ?g e) (before @ gap @ first # seen))
            = filter (\<lambda>e. since < ?g e) (gap @ [first])"
  proof -
    have "before @ gap @ first # seen = before @ (gap @ [first]) @ seen" by simp
    then have "filter (\<lambda>e. L < ?g e) (before @ gap @ first # seen)
        = filter (\<lambda>e. L < ?g e) before @ filter (\<lambda>e. L < ?g e) (gap @ [first])
          @ filter (\<lambda>e. L < ?g e) seen"
      by (simp only: filter_append)
    then have split: "filter (\<lambda>e. L < ?g e) (before @ gap @ first # seen)
        = filter (\<lambda>e. since < ?g e) (gap @ [first]) @ filter (\<lambda>e. L < ?g e) seen"
      by (simp only: f_before f_gap append_Nil)
    have all_le: "\<forall>x \<in> set (filter (\<lambda>e. since < ?g e) (gap @ [first])). ?g x \<le> ?g first"
      using gf by (auto simp: less_imp_le)
    have none: "takeWhile (\<lambda>e. ?g e \<le> ?g first) (filter (\<lambda>e. L < ?g e) seen) = []"
      using fl seen by (intro takeWhile_none) (auto simp: not_le)
    show ?thesis
      unfolding split by (rule takeWhile_all_then_none [OF all_le none])
  qed
  have f_later: "filter (\<lambda>e. since < ?g e) later = later"
    using fl cur by (auto simp: filter_id_conv)
  show ?thesis
    unfolding tw using f_later by (simp add: cold_def)
qed

lemma join_seqs:
  assumes "\<forall>n. \<not> stop n"
    and "sorted_wrt (<) (map sequenceForEvent (before @ gap @ first # later))"
    and "\<forall>e \<in> set before. 0 < sequenceForEvent e"
    and "set seen \<subseteq> set later"
    and "since \<le> sequenceForEvent first"
  shows "map sequenceForEvent
       (out (fst (snd (joinRoutine (Playback before) (Playback (before @ gap @ first # seen))
          stop since (first # later) closed a w))))
     = filter (\<lambda>s. since < s) (map sequenceForEvent (before @ gap @ first # later))"
proof -
  let ?P = "before @ gap @ first # later"
  let ?o = "out (fst (snd (joinRoutine (Playback before) (Playback (before @ gap @ first # seen))
          stop since (first # later) closed a w)))"
  have srt: "sorted_wrt (\<lambda>x y. sequenceForEvent x < sequenceForEvent y) ?P"
    using assms(2) by (simp only: sorted_wrt_map)
  have "?o = filter (\<lambda>e. since < sequenceForEvent e) ?P"
    unfolding join_out [OF assms(1)]
    by (rule handoff_core [OF srt assms(3) assms(4) assms(5)])
  then show ?thesis
    by (simp only: filter_map comp_def)
qed

text \<open>
  Under the same conditions no sequence number is delivered twice. The conditions rule
  out the run of \<open>join_duplicate_at_seam\<close>, where the first live event is not above what the
  cold replay visited.
\<close>

lemma join_no_duplicates:
  assumes "\<forall>n. \<not> stop n"
    and "sorted_wrt (<) (map sequenceForEvent (before @ gap @ first # later))"
    and "\<forall>e \<in> set before. 0 < sequenceForEvent e"
    and "set seen \<subseteq> set later"
    and "since \<le> sequenceForEvent first"
  shows "distinct (map sequenceForEvent
       (out (fst (snd (joinRoutine (Playback before) (Playback (before @ gap @ first # seen))
          stop since (first # later) closed a w)))))"
proof -
  have "distinct (map sequenceForEvent (before @ gap @ first # later))"
    using assms(2) strict_sorted_iff by blast
  then have "distinct (filter (\<lambda>s. since < s)
      (map sequenceForEvent (before @ gap @ first # later)))"
    by (rule distinct_filter)
  then show ?thesis
    by (simp only: join_seqs [OF assms])
qed




end
